theory Spec2Isabelle
  imports Complex_Main "HOL-Library.Multiset" "HOL-Library.Char_ord" "HOL-Library.List_Lexorder"
begin

section \<open>Conventions of the embedding\<close>

text \<open>
  Python integers are \<open>int\<close> (or \<open>nat\<close> for lengths and counts). Python floats are
  modelled as exact real numbers: \<open>/\<close> is exact division, \<open>int(...)\<close> truncates towards
  zero. Rounding errors of IEEE doubles are outside the model; every statement about a
  float below is a statement about the exact value the source's formula denotes.
  Exceptions are values of the type \<open>error\<close>.
\<close>

datatype error = ZeroDivisionError | ValueError | IndexError


section \<open>Geometry transform (preprocessing.py)\<close>

record resize_params =
  scale :: real
  new_size :: "int \<times> int"
  padding :: "int \<times> int"
  target_size :: int


text \<open>
  The bounding-box update of \<open>update_annotation_coords\<close>: the list assigned to
  \<open>ann['bbox']\<close> for a box \<open>[x, y, w, h]\<close>.
\<close>

type_synonym bbox = "real \<times> real \<times> real \<times> real"

definition update_bbox :: "resize_params \<Rightarrow> bbox \<Rightarrow> bbox" where
  "update_bbox rp b =
     (case b of (x, y, w, h) \<Rightarrow>
        (case padding rp of (pad_left, pad_top) \<Rightarrow>
           (x * scale rp + real_of_int pad_left,
            y * scale rp + real_of_int pad_top,
            w * scale rp,
            h * scale rp)))"

section \<open>Python lists and strings\<close>

text \<open>\<open>xs[i]\<close> for a non-negative index: \<open>IndexError\<close> out of range.\<close>

definition py_index :: "'a list \<Rightarrow> nat \<Rightarrow> error + 'a" where
  "py_index xs i = (if i < length xs then Inr (xs ! i) else Inl IndexError)"

text \<open>
  A slice bound as Python normalises it: a negative bound counts from the end, and every
  bound is clipped to \<open>[0, len]\<close>. \<open>py_slice xs lo hi\<close> is \<open>xs[lo:hi]\<close>, with \<open>None\<close>
  for an omitted bound.
\<close>

definition slice_bound :: "nat \<Rightarrow> int \<Rightarrow> nat" where
  "slice_bound n i = (if i < 0 then nat (max 0 (int n + i)) else min (nat i) n)"

definition py_slice :: "'a list \<Rightarrow> int option \<Rightarrow> int option \<Rightarrow> 'a list" where
  "py_slice xs lo hi =
     (let n = length xs;
          l = (case lo of None \<Rightarrow> 0 | Some i \<Rightarrow> slice_bound n i);
          h = (case hi of None \<Rightarrow> n | Some i \<Rightarrow> slice_bound n i)
      in take (h - l) (drop l xs))"

text \<open>\<open>s.split(c)\<close> for a one-character separator: one more part than separators.\<close>

fun split_on :: "char \<Rightarrow> string \<Rightarrow> string list" where
  "split_on c [] = [[]]"
| "split_on c (x # xs) =
     (if x = c then [] # split_on c xs
      else (case split_on c xs of
              p # ps \<Rightarrow> (x # p) # ps
            | [] \<Rightarrow> [[x]]))"

text \<open>
  \<open>s.replace(old, new)\<close>: the occurrences of \<open>old\<close> are replaced from left to right,
  without overlap. (The source only replaces non-empty patterns.)
\<close>

fun replace_str :: "string \<Rightarrow> string \<Rightarrow> string \<Rightarrow> string" where
  "replace_str old new [] = []"
| "replace_str old new (x # xs) =
     (if old \<noteq> [] \<and> take (length old) (x # xs) = old
      then new @ replace_str old new (drop (length old) (x # xs))
      else x # replace_str old new xs)"

section \<open>Class keys\<close>

text \<open>
  \<open>_extract_pill_code\<close> of dataset_split.py. The body of the \<open>try\<close> is a computation that
  may raise; the bare \<open>except\<close> turns every exception into \<open>'unknown'\<close>.
\<close>

definition split_extract_pill_code_body :: "string \<Rightarrow> error + string" where
  "split_extract_pill_code_body filename =
     (let parts = split_on CHR ''-'' filename
      in if length parts \<ge> 2 then py_index parts 1
         else py_index (split_on CHR ''_'' filename) 0)"

definition split_extract_pill_code :: "string \<Rightarrow> string" where
  "split_extract_pill_code filename =
     (case split_extract_pill_code_body filename of
        Inr code \<Rightarrow> code
      | Inl e \<Rightarrow> ''unknown'')"

text \<open>
  The key under which \<open>_balanced_sample\<close> (dataset_splitter.py) and \<open>balanced_sampling\<close>
  (dataset_prunig.py) file a pair: \<open>name.split('-')[1]\<close>, or \<open>'unknown'\<close> when the index
  raises.
\<close>

definition sample_pill_code :: "string \<Rightarrow> string" where
  "sample_pill_code name =
     (case py_index (split_on CHR ''-'' name) 1 of
        Inr code \<Rightarrow> code
      | Inl e \<Rightarrow> ''unknown'')"

text \<open>\<open>extract_pill_code\<close> of annotation_converter.py.\<close>

definition extract_pill_code :: "string \<Rightarrow> string" where
  "extract_pill_code filename =
     (let name = replace_str ''.json'' '''' (replace_str ''.png'' '''' filename)
      in if CHR ''_'' \<in> set name
         then (case split_on CHR ''_'' name of p # ps \<Rightarrow> p | [] \<Rightarrow> [])
         else name)"

text \<open>
  A \<open>defaultdict(list)\<close> filled by \<open>d[k].append(v)\<close>: keys in order of first insertion,
  each with its values in order of arrival.
\<close>

fun group_append :: "'k \<Rightarrow> 'v \<Rightarrow> ('k \<times> 'v list) list \<Rightarrow> ('k \<times> 'v list) list" where
  "group_append k v [] = [(k, [v])]"
| "group_append k v ((k', vs) # g) =
     (if k = k' then (k', vs @ [v]) # g else (k', vs) # group_append k v g)"

definition group_by :: "('v \<Rightarrow> 'k) \<Rightarrow> 'v list \<Rightarrow> ('k \<times> 'v list) list" where
  "group_by key xs = foldl (\<lambda>g x. group_append (key x) x g) [] xs"

section \<open>The random source\<close>

text \<open>
  The module \<open>random\<close> is a global generator. Its state is modelled as the list of raw
  draws still to come; \<open>randbelow n\<close> consumes one draw and reduces it below \<open>n\<close>, so
  every outcome of the real generator is the outcome for some list. (An exhausted list
  yields 0.)
\<close>

type_synonym rng = "nat list"

fun randbelow :: "nat \<Rightarrow> rng \<Rightarrow> nat \<times> rng" where
  "randbelow n [] = (0, [])"
| "randbelow n (r # rs) = (r mod n, rs)"



text \<open>
  \<open>random.sample(population, k)\<close>: \<open>ValueError\<close> unless \<open>0 \<le> k \<le> len(population)\<close>;
  otherwise \<open>k\<close> times a position of the remaining pool is drawn, its element is taken,
  and the last element of the pool is moved into its place. (This is the selection
  CPython runs on a copy of the population; for a large population it tracks the chosen
  positions in a set instead, with the same possible outcomes.)
\<close>

fun sample_loop :: "nat \<Rightarrow> 'a list \<Rightarrow> rng \<Rightarrow> 'a list \<times> rng" where
  "sample_loop 0 pool g = ([], g)"
| "sample_loop (Suc k) pool g =
     (case randbelow (length pool) g of
        (j, g') \<Rightarrow>
          (case sample_loop k (butlast (pool[j := last pool])) g' of
             (result, g'') \<Rightarrow> (pool ! j # result, g'')))"

definition random_sample :: "'a list \<Rightarrow> int \<Rightarrow> rng \<Rightarrow> error + ('a list \<times> rng)" where
  "random_sample population k g =
     (if 0 \<le> k \<and> k \<le> int (length population)
      then Inr (sample_loop (nat k) population g)
      else Inl ValueError)"

section \<open>Sampler (dataset_splitter.py, dataset_prunig.py)\<close>

text \<open>
  A matched image-annotation pair. The fields are those of dataset_prunig.py;
  dataset_splitter.py has the same three under the keys \<open>image\<close>, \<open>annotation\<close>, \<open>name\<close>.
\<close>

record train_pair =
  image_path :: string
  annotation_path :: string
  image_name :: string

text \<open>
  The loop \<open>for code, group_pairs in groups.items(): selected.extend(random.sample(...))\<close>.
\<close>

fun sample_groups ::
  "int \<Rightarrow> ('k \<times> 'a list) list \<Rightarrow> 'a list \<Rightarrow> rng \<Rightarrow> error + ('a list \<times> rng)" where
  "sample_groups samples_per_group [] selected g = Inr (selected, g)"
| "sample_groups samples_per_group ((code, group_pairs) # groups) selected g =
     (let sample_count = min samples_per_group (int (length group_pairs))
      in case random_sample group_pairs sample_count g of
           Inl e \<Rightarrow> Inl e
         | Inr (s, g') \<Rightarrow> sample_groups samples_per_group groups (selected @ s) g')"

text \<open>
  \<open>_balanced_sample(pairs, target_size)\<close>. The floor division by the number of groups
  raises \<open>ZeroDivisionError\<close> when there is no group.
\<close>

definition balanced_sample ::
  "train_pair list \<Rightarrow> int \<Rightarrow> rng \<Rightarrow> error + (train_pair list \<times> rng)" where
  "balanced_sample pairs tsize g =
     (let groups = group_by (\<lambda>pair. sample_pill_code (image_name pair)) pairs
      in if length groups = 0 then Inl ZeroDivisionError
         else
           let samples_per_group = max 1 (tsize div int (length groups))
           in case sample_groups samples_per_group groups [] g of
                Inl e \<Rightarrow> Inl e
              | Inr (selected, g1) \<Rightarrow>
                  if int (length selected) < tsize then
                    let remaining = filter (\<lambda>p. p \<notin> set selected) pairs;
                        additional_count =
                          min (tsize - int (length selected)) (int (length remaining))
                    in case random_sample remaining additional_count g1 of
                         Inl e \<Rightarrow> Inl e
                       | Inr (additional, g2) \<Rightarrow> Inr (selected @ additional, g2)
                  else if int (length selected) > tsize then random_sample selected tsize g1
                  else Inr (selected, g1))"

text \<open>
  \<open>balanced_sampling(valid_pairs, target_size)\<close> of dataset_prunig.py: the same steps,
  written out again (the source differs in its prints and in computing the number of
  missing pairs before the remaining ones).
\<close>

definition balanced_sampling ::
  "train_pair list \<Rightarrow> int \<Rightarrow> rng \<Rightarrow> error + (train_pair list \<times> rng)" where
  "balanced_sampling valid_pairs tsize g =
     (let pill_groups = group_by (\<lambda>pair. sample_pill_code (image_name pair)) valid_pairs
      in if length pill_groups = 0 then Inl ZeroDivisionError
         else
           let samples_per_group = max 1 (tsize div int (length pill_groups))
           in case sample_groups samples_per_group pill_groups [] g of
                Inl e \<Rightarrow> Inl e
              | Inr (selected_pairs, g1) \<Rightarrow>
                  if int (length selected_pairs) < tsize then
                    let remaining = tsize - int (length selected_pairs);
                        remaining_pairs = filter (\<lambda>p. p \<notin> set selected_pairs) valid_pairs
                    in case random_sample remaining_pairs
                              (min remaining (int (length remaining_pairs))) g1 of
                         Inl e \<Rightarrow> Inl e
                       | Inr (additional, g2) \<Rightarrow> Inr (selected_pairs @ additional, g2)
                  else if int (length selected_pairs) > tsize
                  then random_sample selected_pairs tsize g1
                  else Inr (selected_pairs, g1))"

text \<open>
  \<open>_quality_sample(pairs, target_size)\<close>. \<open>getsize\<close> is \<open>os.path.getsize\<close> on the image
  files found by the scan. Sorting with \<open>reverse=True\<close> is stable: pairs of equal size keep
  their order.
\<close>

definition quality_sample :: "(string \<Rightarrow> nat) \<Rightarrow> train_pair list \<Rightarrow> int \<Rightarrow> train_pair list" where
  "quality_sample getsize pairs tsize =
     (let pairs_with_size = map (\<lambda>pair. (pair, getsize (image_path pair))) pairs;
          sorted_pairs = sort_key (\<lambda>x. - int (snd x)) pairs_with_size
      in map fst (py_slice sorted_pairs None (Some tsize)))"

text \<open>
  The choice of strategy at the end of \<open>_extract_train_pairs\<close>, after the scan of the
  source directories has produced \<open>valid_pairs\<close>.
\<close>

definition extract_train_pairs ::
  "(string \<Rightarrow> nat) \<Rightarrow> train_pair list \<Rightarrow> int \<Rightarrow> string \<Rightarrow> rng \<Rightarrow> error + (train_pair list \<times> rng)" where
  "extract_train_pairs getsize valid_pairs train_size strategy g =
     (if strategy = ''balanced'' then balanced_sample valid_pairs train_size g
      else if strategy = ''quality'' then Inr (quality_sample getsize valid_pairs train_size, g)
      else random_sample valid_pairs (min train_size (int (length valid_pairs))) g)"

text \<open>
  A pool of seven pairs in three class-key groups (\<open>001\<close>, \<open>002\<close>, \<open>003\<close>), used to run
  the sampler on a concrete input.
\<close>

definition example_pair :: "string \<Rightarrow> train_pair" where
  "example_pair n =
     \<lparr> image_path = ''train_images/'' @ n @ ''.png'',
       annotation_path = ''train_annotations/'' @ n @ ''.json'',
       image_name = n \<rparr>"

definition example_pool :: "train_pair list" where
  "example_pool = map example_pair
     [''K-001-a'', ''K-001-b'', ''K-001-c'', ''K-002-a'', ''K-002-b'', ''K-003-a'', ''K-003-b'']"

section \<open>Splitter (dataset_split.py)\<close>

record split_pair =
  image :: string
  label :: string
  name :: string
  pill_code :: string




section \<open>Number formatting\<close>

text \<open>The decimal digits of a non-negative integer, as \<open>str\<close> prints them.\<close>

definition digit_char :: "nat \<Rightarrow> char" where
  "digit_char d = ''0123456789'' ! d"

fun string_of_nat :: "nat \<Rightarrow> string" where
  "string_of_nat n =
     (if n < 10 then [digit_char n] else string_of_nat (n div 10) @ [digit_char (n mod 10)])"

declare string_of_nat.simps [simp del]

text \<open>
  Rounding to the nearest integer, ties to the even one: the rounding of \<open>round\<close> and of
  the format specification \<open>.6f\<close> on a value that is exactly halfway.
\<close>

definition round_half_even :: "real \<Rightarrow> int" where
  "round_half_even x =
     (let f = \<lfloor>x\<rfloor>; d = x - real_of_int f
      in if d < 1 / 2 then f
         else if 1 / 2 < d then f + 1
         else if even f then f else f + 1)"

text \<open>The six digits after the point, with leading zeros.\<close>

definition digits6 :: "nat \<Rightarrow> string" where
  "digits6 m =
     [digit_char (m div 100000 mod 10), digit_char (m div 10000 mod 10),
      digit_char (m div 1000 mod 10), digit_char (m div 100 mod 10),
      digit_char (m div 10 mod 10), digit_char (m mod 10)]"

text \<open>\<open>f"{x:.6f}"\<close>: sign, integer part, point, six digits.\<close>

definition fmt6 :: "real \<Rightarrow> string" where
  "fmt6 x =
     (let n = nat (round_half_even (\<bar>x\<bar> * 1000000))
      in (if x < 0 then ''-'' else '''') @ string_of_nat (n div 1000000) @ ''.'' @
         digits6 (n mod 1000000))"

section \<open>Format converter (annotation_converter.py)\<close>

record image_info =
  img_id :: int
  file_name :: string
  width :: real
  height :: real

record annotation =
  image_id :: int
  bbox :: bbox

text \<open>
  A parsed annotation file. The keys \<open>images\<close> and \<open>annotations\<close> may be missing; a file
  that cannot be read or parsed is \<open>None\<close> in the list of files.
\<close>

record coco_json =
  images :: "image_info list option"
  annotations :: "annotation list option"

type_synonym json_file = "string \<times> coco_json option"

text \<open>A directory of text files: path to lines. A line is kept without its newline.\<close>

type_synonym files = "string \<rightharpoonup> string list"

text \<open>\<open>os.path.join(a, b)\<close> for two components (POSIX).\<close>

definition path_join :: "string \<Rightarrow> string \<Rightarrow> string" where
  "path_join a b =
     (if b \<noteq> [] \<and> hd b = CHR ''/'' then b
      else if a = [] \<or> last a = CHR ''/'' then a @ b
      else a @ ''/'' @ b)"

text \<open>
  The first pass of \<open>convert_coco_to_yolo\<close>: the files that have both keys, and the pill
  codes of all their images.
\<close>

fun valid_files :: "json_file list \<Rightarrow> (string \<times> image_info list \<times> annotation list) list" where
  "valid_files [] = []"
| "valid_files ((json_file, None) # fs) = valid_files fs"
| "valid_files ((json_file, Some data) # fs) =
     (case (images data, annotations data) of
        (Some imgs, Some anns) \<Rightarrow> (json_file, imgs, anns) # valid_files fs
      | _ \<Rightarrow> valid_files fs)"

definition all_pill_codes :: "json_file list \<Rightarrow> string list" where
  "all_pill_codes json_files =
     concat (map (\<lambda>(json_file, imgs, anns). map (\<lambda>img_info. extract_pill_code (file_name img_info)) imgs)
               (valid_files json_files))"

text \<open>\<open>sorted(list(all_pill_codes))\<close> of the set of codes, and the enumeration of it.\<close>

definition sorted_codes :: "json_file list \<Rightarrow> string list" where
  "sorted_codes json_files = sort (remdups (all_pill_codes json_files))"

definition code_to_id :: "string list \<Rightarrow> string \<rightharpoonup> nat" where
  "code_to_id codes = map_of (zip codes [0 ..< length codes])"

text \<open>
  One line of a label file. Dividing by a zero width or height raises
  \<open>ZeroDivisionError\<close>.
\<close>

definition yolo_line :: "nat \<Rightarrow> real \<Rightarrow> real \<Rightarrow> bbox \<Rightarrow> error + string" where
  "yolo_line class_id img_width img_height b =
     (case b of (x, y, w, h) \<Rightarrow>
        if img_width = 0 \<or> img_height = 0 then Inl ZeroDivisionError
        else
          let center_x = (x + w / 2) / img_width;
              center_y = (y + h / 2) / img_height;
              width_rel = w / img_width;
              height_rel = h / img_height
          in Inr (string_of_nat class_id @ '' '' @ fmt6 center_x @ '' '' @ fmt6 center_y @ '' '' @
                  fmt6 width_rel @ '' '' @ fmt6 height_rel))"

text \<open>
  The loop over an image's annotations inside \<open>with open(yolo_file, 'w')\<close>: the lines
  written so far, and the exception that ended the loop, if any.
\<close>

fun write_lines :: "nat \<Rightarrow> real \<Rightarrow> real \<Rightarrow> annotation list \<Rightarrow> string list \<Rightarrow> string list \<times> error option" where
  "write_lines class_id img_width img_height [] content = (content, None)"
| "write_lines class_id img_width img_height (ann # anns) content =
     (case yolo_line class_id img_width img_height (bbox ann) of
        Inl e \<Rightarrow> (content, Some e)
      | Inr l \<Rightarrow> write_lines class_id img_width img_height anns (content @ [l]))"

record conv_state =
  label_files :: files
  converted_count :: nat

definition yolo_file_of :: "string \<Rightarrow> image_info \<Rightarrow> string" where
  "yolo_file_of output_path img_info =
     (let base_name = replace_str ''.jpg'' '''' (replace_str ''.png'' '''' (file_name img_info))
      in path_join output_path (base_name @ ''.txt''))"

definition class_id_of :: "(string \<rightharpoonup> nat) \<Rightarrow> image_info \<Rightarrow> nat" where
  "class_id_of c2i img_info =
     (case c2i (extract_pill_code (file_name img_info)) of Some i \<Rightarrow> i | None \<Rightarrow> 0)"

text \<open>
  The body of the loop over \<open>coco_data['images']\<close>: a label file is opened (and so
  created or emptied) only when the image has annotations.
\<close>

definition convert_image ::
  "(string \<rightharpoonup> nat) \<Rightarrow> string \<Rightarrow> annotation list \<Rightarrow> image_info \<Rightarrow> conv_state
     \<Rightarrow> conv_state \<times> error option" where
  "convert_image c2i output_path anns img_info st =
     (let image_annotations = filter (\<lambda>ann. image_id ann = img_id img_info) anns
      in if image_annotations \<noteq> [] then
           let yolo_file = yolo_file_of output_path img_info;
               class_id = class_id_of c2i img_info
           in case write_lines class_id (width img_info) (height img_info) image_annotations [] of
                (content, Some e) \<Rightarrow>
                  (st\<lparr>label_files := (label_files st)(yolo_file \<mapsto> content)\<rparr>, Some e)
              | (content, None) \<Rightarrow>
                  (st\<lparr>label_files := (label_files st)(yolo_file \<mapsto> content),
                      converted_count := converted_count st + 1\<rparr>, None)
         else (st, None))"

fun convert_images ::
  "(string \<rightharpoonup> nat) \<Rightarrow> string \<Rightarrow> annotation list \<Rightarrow> image_info list \<Rightarrow> conv_state
     \<Rightarrow> conv_state \<times> error option" where
  "convert_images c2i output_path anns [] st = (st, None)"
| "convert_images c2i output_path anns (img_info # imgs) st =
     (case convert_image c2i output_path anns img_info st of
        (st', Some e) \<Rightarrow> (st', Some e)
      | (st', None) \<Rightarrow> convert_images c2i output_path anns imgs st')"

fun convert_files ::
  "(string \<rightharpoonup> nat) \<Rightarrow> string \<Rightarrow> (string \<times> image_info list \<times> annotation list) list \<Rightarrow> conv_state
     \<Rightarrow> conv_state \<times> error option" where
  "convert_files c2i output_path [] st = (st, None)"
| "convert_files c2i output_path ((json_file, imgs, anns) # fs) st =
     (case convert_images c2i output_path anns imgs st of
        (st', Some e) \<Rightarrow> (st', Some e)
      | (st', None) \<Rightarrow> convert_files c2i output_path fs st')"

record conv_result =
  result_converted_count :: nat
  total_classes :: nat
  classes_file :: string
  class_mapping :: "(string \<times> nat) list"

text \<open>
  \<open>convert_coco_to_yolo(data_path, output_path)\<close>, given the annotation files found under
  \<open>data_path\<close> and the text files of the output directory. It returns the files
  afterwards and either the exception raised or the value returned (\<open>None\<close> when no
  annotation file was found).
\<close>

definition convert_coco_to_yolo ::
  "json_file list \<Rightarrow> string \<Rightarrow> files \<Rightarrow> files \<times> (error + conv_result option)" where
  "convert_coco_to_yolo json_files output_path fs =
     (if json_files = [] then (fs, Inr None)
      else
        let codes = sorted_codes json_files;
            c2i = code_to_id codes;
            classes = path_join output_path ''classes.txt'';
            st0 = \<lparr> label_files = fs(classes \<mapsto> codes), converted_count = 0 \<rparr>
        in case convert_files c2i output_path (valid_files json_files) st0 of
             (st, Some e) \<Rightarrow> (label_files st, Inl e)
           | (st, None) \<Rightarrow>
               (label_files st,
                Inr (Some \<lparr> result_converted_count = converted_count st,
                            total_classes = length codes,
                            classes_file = classes,
                            class_mapping = zip codes [0 ..< length codes] \<rparr>)))"

text \<open>
  The first field of a label line: what data_analyzer.py reads back as the class id
  (\<open>parts[0]\<close> of \<open>line.strip().split()\<close>).
\<close>

definition line_class_field :: "string \<Rightarrow> string" where
  "line_class_field l = takeWhile (\<lambda>c. c \<noteq> CHR '' '') l"




text \<open>
  Two small corpora: one annotation file with one image that has two boxes, and one
  annotation file whose only image has no box.
\<close>

definition example_image :: image_info where
  "example_image = \<lparr> img_id = 1, file_name = ''K-001_0.png'', width = 1000, height = 1000 \<rparr>"

definition annotated_files :: "json_file list" where
  "annotated_files =
     [(''train_annotations/a/b/K-001_0.json'',
       Some \<lparr> images = Some [example_image],
              annotations = Some [\<lparr> image_id = 1, bbox = (100, 200, 50, 80) \<rparr>,
                                  \<lparr> image_id = 1, bbox = (200, 100, 80, 50) \<rparr>] \<rparr>)]"

definition unannotated_files :: "json_file list" where
  "unannotated_files =
     [(''train_annotations/a/b/K-001_0.json'',
       Some \<lparr> images = Some [example_image], annotations = Some [] \<rparr>)]"

text \<open>
  \<open>update_annotation_coords\<close> of preprocessing.py, as the data it writes to the output
  path: every box is remapped and every image entry gets the target size as its width and
  height; a missing key is left missing.
\<close>

definition update_annotation_coords :: "resize_params \<Rightarrow> coco_json \<Rightarrow> coco_json" where
  "update_annotation_coords rp data =
     \<lparr> images =
         map_option (map (\<lambda>img_info. img_info\<lparr> width := real_of_int (target_size rp),
                                                height := real_of_int (target_size rp) \<rparr>))
                    (images data),
       annotations =
         map_option (map (\<lambda>ann. ann\<lparr> bbox := update_bbox rp (bbox ann) \<rparr>)) (annotations data) \<rparr>"

section \<open>Quality analyzer (data_analyzer.py)\<close>





section \<open>Geometry transform: parameters and box containment\<close>



lemma scale_pos:
  assumes "0 < W" "0 < H" "0 < T"
  shows "0 < min (real_of_int T / real_of_int W) (real_of_int T / real_of_int H)"
  using assms by simp









section \<open>Class keys of the splitter and of the sampler\<close>

lemma split_on_not_Nil: "split_on c s \<noteq> []"
  by (induction s) (auto split: list.splits)

lemma split_on_takeWhile:
  "split_on c s = takeWhile (\<lambda>x. x \<noteq> c) s #
     (if c \<in> set s then split_on c (tl (dropWhile (\<lambda>x. x \<noteq> c) s)) else [])"
  by (induction s) (auto simp: split_on_not_Nil split: list.splits)

lemma split_on_no_sep: "c \<notin> set s \<Longrightarrow> split_on c s = [s]"
  by (induction s) auto

lemma split_on_sep_length: "c \<in> set s \<Longrightarrow> 2 \<le> length (split_on c s)"
  by (subst split_on_takeWhile, simp, subst split_on_takeWhile, simp)

lemma split_on_second:
  assumes "c \<in> set s"
  shows "split_on c s ! 1 = takeWhile (\<lambda>x. x \<noteq> c) (tl (dropWhile (\<lambda>x. x \<noteq> c) s))"
proof -
  have "split_on c s = takeWhile (\<lambda>x. x \<noteq> c) s # split_on c (tl (dropWhile (\<lambda>x. x \<noteq> c) s))"
    using split_on_takeWhile [of c s] assms by simp
  then have "split_on c s ! 1 = hd (split_on c (tl (dropWhile (\<lambda>x. x \<noteq> c) s)))"
    by (metis One_nat_def hd_conv_nth list.distinct(1) nth_Cons_0 nth_Cons_Suc split_on_takeWhile)
  then show ?thesis by (subst (asm) split_on_takeWhile) simp
qed

text \<open>
  Claim C9 as stated fails: for the identifier \<open>img_001\<close>, which has no \<open>-\<close>, the
  splitter's extraction falls back to the part before the first \<open>_\<close> and returns
  \<open>img\<close>, while the sampler files the pair under \<open>unknown\<close>.
\<close>

theorem class_key_extractors_differ:
  "split_extract_pill_code ''img_001'' = ''img'' \<and> sample_pill_code ''img_001'' = ''unknown'' \<and>
   split_extract_pill_code ''img_001'' \<noteq> sample_pill_code ''img_001''"
  by (simp add: split_extract_pill_code_def split_extract_pill_code_body_def sample_pill_code_def
      py_index_def)

text \<open>
  Claim C9, amended. On an identifier that contains \<open>-\<close> the splitter and the sampler
  return the same key, the text between the first and the second \<open>-\<close> (or the end).
  On an identifier without \<open>-\<close> the sampler returns \<open>unknown\<close> and the splitter
  returns the text before the first \<open>_\<close> (the whole identifier when there is none).
\<close>

theorem class_key_extractors:
  "split_extract_pill_code ident =
     (if CHR ''-'' \<in> set ident
      then takeWhile (\<lambda>x. x \<noteq> CHR ''-'') (tl (dropWhile (\<lambda>x. x \<noteq> CHR ''-'') ident))
      else takeWhile (\<lambda>x. x \<noteq> CHR ''_'') ident) \<and>
   sample_pill_code ident =
     (if CHR ''-'' \<in> set ident
      then takeWhile (\<lambda>x. x \<noteq> CHR ''-'') (tl (dropWhile (\<lambda>x. x \<noteq> CHR ''-'') ident))
      else ''unknown'')"
proof (cases "CHR ''-'' \<in> set ident")
  case True
  then have l: "2 \<le> length (split_on CHR ''-'' ident)" by (rule split_on_sep_length)
  then have l1: "1 < length (split_on CHR ''-'' ident)" by simp
  show ?thesis using True l l1 split_on_second [OF True]
    by (simp add: split_extract_pill_code_def split_extract_pill_code_body_def sample_pill_code_def
        py_index_def)
next
  case False
  then have s: "split_on CHR ''-'' ident = [ident]" by (rule split_on_no_sep)
  have h: "split_on CHR ''_'' ident ! 0 = takeWhile (\<lambda>x. x \<noteq> CHR ''_'') ident"
    by (subst split_on_takeWhile) simp
  have n: "0 < length (split_on CHR ''_'' ident)" by (subst split_on_takeWhile) simp
  show ?thesis using False s h n
    by (simp add: split_extract_pill_code_def split_extract_pill_code_body_def sample_pill_code_def
        py_index_def)
qed

section \<open>Sampling: size of the selection\<close>

lemma sample_loop_length: "length (fst (sample_loop k pool g)) = k"
proof (induction k arbitrary: pool g)
  case 0
  show ?case by simp
next
  case (Suc k)
  obtain j g1 where j: "randbelow (length pool) g = (j, g1)" by (cases "randbelow (length pool) g")
  obtain r g2 where r: "sample_loop k (butlast (pool[j := last pool])) g1 = (r, g2)"
    by (cases "sample_loop k (butlast (pool[j := last pool])) g1")
  have "length r = k" using Suc [of "butlast (pool[j := last pool])" g1] r by simp
  then show ?case using j r by simp
qed

lemma random_sample_Inr:
  assumes "0 \<le> k" "k \<le> int (length population)"
  shows "\<exists>r g'. random_sample population k g = Inr (r, g') \<and> int (length r) = k"
proof -
  obtain r g' where rg: "sample_loop (nat k) population g = (r, g')" by (cases "sample_loop (nat k) population g")
  then have "length r = nat k" using sample_loop_length [of "nat k" population g] by simp
  then show ?thesis using assms rg by (simp add: random_sample_def)
qed

lemma random_sample_length:
  assumes "random_sample population k g = Inr (r, g')"
  shows "int (length r) = k"
proof -
  from assms have k: "0 \<le> k" "k \<le> int (length population)" and
    rg: "sample_loop (nat k) population g = (r, g')"
    by (auto simp: random_sample_def split: if_splits)
  then have "length r = nat k" using sample_loop_length [of "nat k" population g] by simp
  then show ?thesis using k by simp
qed

lemma sample_groups_Inr:
  assumes "0 \<le> spg"
  shows "\<exists>sel g'. sample_groups spg groups selected g = Inr (sel, g')"
proof (induction groups arbitrary: selected g)
  case Nil
  show ?case by simp
next
  case (Cons a groups)
  obtain code gp where a: "a = (code, gp)" by (cases a)
  have "0 \<le> min spg (int (length gp))" "min spg (int (length gp)) \<le> int (length gp)"
    using assms by simp_all
  then obtain s g1 where "random_sample gp (min spg (int (length gp))) g = Inr (s, g1)"
    using random_sample_Inr by blast
  then show ?case using Cons.IH [of "selected @ s" g1] by (simp add: a)
qed

lemma filter_not_in_length:
  assumes "distinct xs"
  shows "length xs \<le> length (filter (\<lambda>p. p \<notin> set sel) xs) + length sel"
proof -
  have "distinct (filter (\<lambda>p. p \<in> set sel) xs)" using assms by simp
  then have "length (filter (\<lambda>p. p \<in> set sel) xs) = card (set (filter (\<lambda>p. p \<in> set sel) xs))"
    by (rule distinct_card [symmetric])
  also have "\<dots> \<le> card (set sel)" by (intro card_mono) auto
  also have "\<dots> \<le> length sel" by (rule card_length)
  finally have "length (filter (\<lambda>p. p \<in> set sel) xs) \<le> length sel" .
  moreover have "length xs = length (filter (\<lambda>p. p \<in> set sel) xs) + length (filter (\<lambda>p. p \<notin> set sel) xs)"
    using sum_length_filter_compl [of "\<lambda>p. p \<in> set sel" xs] by simp
  ultimately show ?thesis by linarith
qed

lemma group_append_not_Nil: "group_append k v g \<noteq> []"
  by (cases g) (auto split: if_splits)

lemma foldl_group_append_not_Nil:
  "g \<noteq> [] \<Longrightarrow> foldl (\<lambda>g x. group_append (key x) x g) g xs \<noteq> []"
  by (induction xs arbitrary: g) (simp_all add: group_append_not_Nil)

lemma group_by_Nil_iff: "group_by key xs = [] \<longleftrightarrow> xs = []"
proof (cases xs)
  case Nil
  then show ?thesis by (simp add: group_by_def)
next
  case (Cons a list)
  have "foldl (\<lambda>g x. group_append (key x) x g) [(key a, [a])] list \<noteq> []"
    by (rule foldl_group_append_not_Nil) simp
  then show ?thesis using Cons by (simp add: group_by_def)
qed

lemma balanced_sample_cases:
  assumes t: "1 \<le> tsize" and ne: "pairs \<noteq> []"
  shows "\<exists>sel g'. balanced_sample pairs tsize g = Inr (sel, g') \<and> int (length sel) \<le> tsize \<and>
           (distinct pairs \<and> tsize \<le> int (length pairs) \<longrightarrow> int (length sel) = tsize)"
proof -
  define groups where "groups = group_by (\<lambda>pair. sample_pill_code (image_name pair)) pairs"
  define spg where "spg = max 1 (tsize div int (length groups))"
  have gne: "length groups \<noteq> 0" using ne by (simp add: groups_def group_by_Nil_iff)
  have "0 \<le> spg" by (simp add: spg_def)
  then obtain selected g1 where sg: "sample_groups spg groups [] g = Inr (selected, g1)"
    using sample_groups_Inr by blast
  define remaining where "remaining = filter (\<lambda>p. p \<notin> set selected) pairs"
  define ac where "ac = min (tsize - int (length selected)) (int (length remaining))"
  have unf: "balanced_sample pairs tsize g =
      (if int (length selected) < tsize then
         (case random_sample remaining ac g1 of
            Inl e \<Rightarrow> Inl e
          | Inr (additional, g2) \<Rightarrow> Inr (selected @ additional, g2))
       else if int (length selected) > tsize then random_sample selected tsize g1
       else Inr (selected, g1))"
    using gne sg
    by (simp add: balanced_sample_def Let_def groups_def [symmetric] spg_def [symmetric]
        remaining_def [symmetric] ac_def [symmetric])
  consider (lt) "int (length selected) < tsize" | (gt) "int (length selected) > tsize"
    | (eq) "int (length selected) = tsize" by linarith
  then show ?thesis
  proof cases
    case lt
    have "0 \<le> ac" "ac \<le> int (length remaining)" using lt by (simp_all add: ac_def)
    then obtain additional g2 where rs: "random_sample remaining ac g1 = Inr (additional, g2)"
      and la: "int (length additional) = ac" using random_sample_Inr by blast
    have r: "balanced_sample pairs tsize g = Inr (selected @ additional, g2)"
      using unf lt rs by simp
    have le: "int (length (selected @ additional)) \<le> tsize" using la by (simp add: ac_def)
    have ex: "int (length (selected @ additional)) = tsize"
      if "distinct pairs" "tsize \<le> int (length pairs)"
    proof -
      have "length pairs \<le> length remaining + length selected"
        unfolding remaining_def using that(1) by (rule filter_not_in_length)
      then have "tsize - int (length selected) \<le> int (length remaining)" using that(2) by linarith
      then have "ac = tsize - int (length selected)" by (simp add: ac_def)
      then show ?thesis using la by simp
    qed
    show ?thesis using r le ex by blast
  next
    case gt
    have "0 \<le> tsize" "tsize \<le> int (length selected)" using t gt by simp_all
    then obtain r g2 where "random_sample selected tsize g1 = Inr (r, g2)" "int (length r) = tsize"
      using random_sample_Inr by blast
    then show ?thesis using unf gt by simp
  next
    case eq
    then show ?thesis using unf by simp
  qed
qed

lemma balanced_sample_empty: "balanced_sample [] tsize g = Inl ZeroDivisionError"
  by (simp add: balanced_sample_def group_by_def)

lemma py_slice_prefix_length:
  "0 \<le> k \<Longrightarrow> int (length (py_slice xs None (Some k))) \<le> k"
  by (simp add: py_slice_def slice_bound_def)

lemma quality_sample_length:
  "0 \<le> tsize \<Longrightarrow> int (length (quality_sample getsize pairs tsize)) \<le> tsize"
  unfolding quality_sample_def Let_def length_map by (rule py_slice_prefix_length)

text \<open>
  Claim C6. For a target size of at least 1, whatever the strategy (\<open>balanced\<close>,
  \<open>quality\<close>, anything else is \<open>random\<close>), every list the selection returns has at most
  \<open>target\<close> items; it does return a list in every case but the balanced strategy on an
  empty pool; and the balanced strategy on a pool of distinct pairs with at least
  \<open>target\<close> items returns exactly \<open>target\<close> items.
\<close>

theorem sampling_upper_bound:
  assumes "1 \<le> tsize"
  shows "(\<forall>sel g'. extract_train_pairs getsize pool tsize strategy g = Inr (sel, g')
            \<longrightarrow> int (length sel) \<le> tsize) \<and>
         ((strategy = ''balanced'' \<longrightarrow> pool \<noteq> []) \<longrightarrow>
            (\<exists>sel g'. extract_train_pairs getsize pool tsize strategy g = Inr (sel, g'))) \<and>
         (distinct pool \<and> tsize \<le> int (length pool) \<longrightarrow>
            (\<exists>sel g'. extract_train_pairs getsize pool tsize ''balanced'' g = Inr (sel, g') \<and>
               int (length sel) = tsize))"
proof -
  have t0: "0 \<le> tsize" using assms by simp
  have rnd: "\<exists>sel g'. random_sample pool (min tsize (int (length pool))) g = Inr (sel, g') \<and>
      int (length sel) = min tsize (int (length pool))"
    using t0 by (intro random_sample_Inr) simp_all
  have bal: "pool \<noteq> [] \<Longrightarrow> \<exists>sel g'. balanced_sample pool tsize g = Inr (sel, g') \<and> int (length sel) \<le> tsize \<and>
           (distinct pool \<and> tsize \<le> int (length pool) \<longrightarrow> int (length sel) = tsize)"
    using assms by (rule balanced_sample_cases)
  have 1: "int (length sel) \<le> tsize" if "extract_train_pairs getsize pool tsize strategy g = Inr (sel, g')" for sel g'
  proof (cases "strategy = ''balanced''")
    case True
    then have b: "balanced_sample pool tsize g = Inr (sel, g')" using that by (simp add: extract_train_pairs_def)
    then have "pool \<noteq> []" using balanced_sample_empty by auto
    then show ?thesis using bal b by auto
  next
    case nb: False
    show ?thesis
    proof (cases "strategy = ''quality''")
      case True
      then have "sel = quality_sample getsize pool tsize" using that nb by (simp add: extract_train_pairs_def)
      then show ?thesis using quality_sample_length [OF t0] by simp
    next
      case False
      then have "random_sample pool (min tsize (int (length pool))) g = Inr (sel, g')"
        using that nb by (simp add: extract_train_pairs_def)
      then have "int (length sel) = min tsize (int (length pool))" by (rule random_sample_length)
      then show ?thesis by simp
    qed
  qed
  have 2: "\<exists>sel g'. extract_train_pairs getsize pool tsize strategy g = Inr (sel, g')"
    if "strategy = ''balanced'' \<longrightarrow> pool \<noteq> []"
  proof (cases "strategy = ''balanced''")
    case True
    then show ?thesis using that bal by (auto simp: extract_train_pairs_def)
  next
    case False
    then show ?thesis using rnd by (auto simp: extract_train_pairs_def)
  qed
  have 3: "\<exists>sel g'. extract_train_pairs getsize pool tsize ''balanced'' g = Inr (sel, g') \<and>
               int (length sel) = tsize" if "distinct pool" "tsize \<le> int (length pool)"
  proof -
    have "pool \<noteq> []" using that(2) assms by auto
    then show ?thesis using bal that by (auto simp: extract_train_pairs_def)
  qed
  show ?thesis using 1 2 3 by blast
qed


theorem sampling_upper_bound_witness:
  "(1::int) \<le> 5 \<and> distinct example_pool \<and> 5 \<le> int (length example_pool) \<and>
   example_pool \<noteq> [] \<and>
   (\<exists>sel g'. extract_train_pairs (\<lambda>p. 0) example_pool 5 ''balanced'' [3, 1, 4, 1, 5, 9, 2, 6]
        = Inr (sel, g') \<and> int (length sel) = 5 \<and> int (length sel) \<le> 5)"
proof -
  have d: "distinct example_pool" by (simp add: example_pool_def example_pair_def)
  have l: "5 \<le> int (length example_pool)" by (simp add: example_pool_def)
  have n: "example_pool \<noteq> []" by (simp add: example_pool_def)
  show ?thesis
    using sampling_upper_bound [of 5 "\<lambda>p. 0" example_pool "''balanced''" "[3, 1, 4, 1, 5, 9, 2, 6]"] d l n
    by auto
qed

text \<open>
  Claim C4 at the empty pool with a request for 10 pairs: the balanced strategy, in both
  source files, raises \<open>ZeroDivisionError\<close> when it divides by the number of groups,
  while the quality and the random strategy return the empty selection.
\<close>

theorem balanced_empty_pool_raises:
  "extract_train_pairs getsize [] 10 ''balanced'' g = Inl ZeroDivisionError \<and>
   balanced_sample [] 10 g = Inl ZeroDivisionError \<and>
   balanced_sampling [] 10 g = Inl ZeroDivisionError \<and>
   extract_train_pairs getsize [] 10 ''quality'' g = Inr ([], g) \<and>
   extract_train_pairs getsize [] 10 ''random'' g = Inr ([], g)"
  by (simp add: extract_train_pairs_def balanced_sample_def balanced_sampling_def group_by_def
      quality_sample_def py_slice_def random_sample_def)

lemma balanced_sampling_eq: "balanced_sampling pairs tsize g = balanced_sample pairs tsize g"
  by (simp add: balanced_sampling_def balanced_sample_def Let_def split: sum.splits prod.splits)

section \<open>Stratified split: completeness\<close>






lemma group_append_concat:
  "mset (concat (map snd (group_append k v g))) = mset (concat (map snd g)) + {#v#}"
  by (induction g) auto

lemma foldl_group_append_mset:
  "mset (concat (map snd (foldl (\<lambda>g x. group_append (key x) x g) g xs)))
     = mset (concat (map snd g)) + mset xs"
  by (induction xs arbitrary: g) (simp_all add: group_append_concat)

lemma group_by_mset: "mset (concat (map snd (group_by key xs))) = mset xs"
  by (simp add: group_by_def foldl_group_append_mset)






section \<open>Label lines\<close>

lemma digit_char_cases:
  assumes "d < 10"
  shows "digit_char d \<in> set ''0123456789''"
proof -
  have "d = 0 \<or> d = 1 \<or> d = 2 \<or> d = 3 \<or> d = 4 \<or> d = 5 \<or> d = 6 \<or> d = 7 \<or> d = 8 \<or> d = 9"
    using assms by arith
  then show ?thesis by (elim disjE) (simp_all add: digit_char_def)
qed

lemma string_of_nat_in:
  assumes "\<And>k. k < 10 \<Longrightarrow> digit_char k \<in> S"
  shows "set (string_of_nat n) \<subseteq> S"
proof (induction n rule: string_of_nat.induct)
  case (1 n)
  show ?case
  proof (cases "n < 10")
    case True
    then show ?thesis using assms [of n] by (subst string_of_nat.simps) simp
  next
    case False
    have "digit_char (n mod 10) \<in> S" by (rule assms) simp
    moreover have "set (string_of_nat (n div 10)) \<subseteq> S" using False by (rule 1)
    ultimately show ?thesis using False by (subst string_of_nat.simps) simp
  qed
qed

lemma string_of_nat_digits: "set (string_of_nat n) \<subseteq> set ''0123456789''"
  by (rule string_of_nat_in) (rule digit_char_cases)



lemma string_of_nat_no_sep:
  "CHR ''.'' \<notin> set (string_of_nat n)" "CHR '' '' \<notin> set (string_of_nat n)"
proof -
  have a: "set (string_of_nat n) \<subseteq> - {CHR ''.'', CHR '' ''}"
  proof (rule string_of_nat_in)
    fix k :: nat assume "k < 10"
    then have "digit_char k \<in> set ''0123456789''" by (rule digit_char_cases)
    then show "digit_char k \<in> - {CHR ''.'', CHR '' ''}" by auto
  qed
  show "CHR ''.'' \<notin> set (string_of_nat n)" "CHR '' '' \<notin> set (string_of_nat n)"
    using a by auto
qed












section \<open>Label files: one class id per file\<close>

lemma yolo_line_class_field:
  assumes "yolo_line cid W H b = Inr l"
  shows "line_class_field l = string_of_nat cid"
proof -
  obtain x y w h where b: "b = (x, y, w, h)" by (cases b)
  from assms obtain rest where l: "l = string_of_nat cid @ CHR '' '' # rest"
    by (auto simp: yolo_line_def Let_def b split: if_splits)
  have "\<forall>c \<in> set (string_of_nat cid). c \<noteq> CHR '' ''"
    using string_of_nat_no_sep(2) [of cid] by blast
  then show ?thesis unfolding l line_class_field_def
    by (simp add: takeWhile_append2)
qed

lemma write_lines_class:
  assumes "write_lines cid W H anns content = (content', e)"
    and "list_all (\<lambda>l. line_class_field l = string_of_nat cid) content"
  shows "list_all (\<lambda>l. line_class_field l = string_of_nat cid) content'"
  using assms
proof (induction anns arbitrary: content)
  case Nil
  then show ?case by simp
next
  case (Cons a anns)
  show ?case
  proof (cases "yolo_line cid W H (bbox a)")
    case (Inl e')
    then show ?thesis using Cons.prems by simp
  next
    case (Inr l)
    then have "line_class_field l = string_of_nat cid" by (rule yolo_line_class_field)
    then have "list_all (\<lambda>l. line_class_field l = string_of_nat cid) (content @ [l])"
      using Cons.prems(2) by simp
    moreover have "write_lines cid W H anns (content @ [l]) = (content', e)"
      using Cons.prems(1) Inr by simp
    ultimately show ?thesis by (rule Cons.IH [rotated])
  qed
qed

text \<open>What one step of the image loop does to the label files.\<close>

lemma convert_image_files:
  assumes "convert_image c2i out anns img st = (st', e)"
  shows "(filter (\<lambda>ann. image_id ann = img_id img) anns = [] \<and> st' = st \<and> e = None) \<or>
         (filter (\<lambda>ann. image_id ann = img_id img) anns \<noteq> [] \<and>
          (\<exists>content. label_files st' = (label_files st)(yolo_file_of out img \<mapsto> content) \<and>
             list_all (\<lambda>l. line_class_field l = string_of_nat (class_id_of c2i img)) content))"
proof (cases "filter (\<lambda>ann. image_id ann = img_id img) anns = []")
  case True
  then show ?thesis using assms by (simp add: convert_image_def)
next
  case False
  obtain content e' where w: "write_lines (class_id_of c2i img) (width img) (height img)
      (filter (\<lambda>ann. image_id ann = img_id img) anns) [] = (content, e')"
    by (cases "write_lines (class_id_of c2i img) (width img) (height img)
      (filter (\<lambda>ann. image_id ann = img_id img) anns) []")
  have c: "list_all (\<lambda>l. line_class_field l = string_of_nat (class_id_of c2i img)) content"
    using w by (rule write_lines_class) simp
  have "label_files st' = (label_files st)(yolo_file_of out img \<mapsto> content)"
    using assms False w by (cases e') (auto simp: convert_image_def Let_def)
  then show ?thesis using False c by blast
qed





lemma convert_coco_to_yolo_files:
  "fst (convert_coco_to_yolo json_files out fs) =
     (if json_files = [] then fs
      else label_files (fst (convert_files (code_to_id (sorted_codes json_files)) out
             (valid_files json_files)
             \<lparr> label_files = fs(path_join out ''classes.txt'' \<mapsto> sorted_codes json_files),
               converted_count = 0 \<rparr>)))"
  by (simp add: convert_coco_to_yolo_def Let_def split: prod.splits option.splits)



lemma valid_annotated: "valid_files annotated_files =
  [(''train_annotations/a/b/K-001_0.json'', [example_image],
    [\<lparr> image_id = 1, bbox = (100, 200, 50, 80) \<rparr>, \<lparr> image_id = 1, bbox = (200, 100, 80, 50) \<rparr>])]"
  by (simp add: annotated_files_def)

lemma codes_annotated: "sorted_codes annotated_files = [''K-001'']"
  by (simp add: sorted_codes_def all_pill_codes_def valid_annotated extract_pill_code_def
      example_image_def)




section \<open>Images without annotations\<close>

lemma convert_image_frame:
  assumes "convert_image c2i out anns img st = (st', e)"
    and "yolo_file_of out img = p \<longrightarrow> filter (\<lambda>ann. image_id ann = img_id img) anns = []"
  shows "label_files st' p = label_files st p"
  using convert_image_files [OF assms(1)] assms(2) by auto

lemma convert_images_frame:
  assumes "convert_images c2i out anns imgs st = (st', e)"
    and "\<forall>i \<in> set imgs. yolo_file_of out i = p \<longrightarrow> filter (\<lambda>ann. image_id ann = img_id i) anns = []"
  shows "label_files st' p = label_files st p"
  using assms
proof (induction imgs arbitrary: st)
  case Nil
  then show ?case by simp
next
  case (Cons img imgs)
  obtain st1 e1 where s1: "convert_image c2i out anns img st = (st1, e1)"
    by (cases "convert_image c2i out anns img st")
  have f1: "label_files st1 p = label_files st p"
    using s1 Cons.prems(2) by (intro convert_image_frame [OF s1]) simp
  show ?case
  proof (cases e1)
    case None
    then have "convert_images c2i out anns imgs st1 = (st', e)" using Cons.prems(1) s1 by simp
    then have "label_files st' p = label_files st1 p" using Cons.prems(2) by (intro Cons.IH) simp_all
    then show ?thesis using f1 by simp
  next
    case (Some a)
    then have "st' = st1" using Cons.prems(1) s1 by simp
    then show ?thesis using f1 by simp
  qed
qed

lemma convert_files_frame:
  assumes "convert_files c2i out vfs st = (st', e)"
    and "\<forall>(jf, imgs, anns) \<in> set vfs. \<forall>i \<in> set imgs.
           yolo_file_of out i = p \<longrightarrow> filter (\<lambda>ann. image_id ann = img_id i) anns = []"
  shows "label_files st' p = label_files st p"
  using assms
proof (induction vfs arbitrary: st)
  case Nil
  then show ?case by simp
next
  case (Cons vf vfs)
  obtain jf imgs anns where vf: "vf = (jf, imgs, anns)" by (cases vf)
  obtain st1 e1 where s1: "convert_images c2i out anns imgs st = (st1, e1)"
    by (cases "convert_images c2i out anns imgs st")
  have "\<forall>i \<in> set imgs. yolo_file_of out i = p \<longrightarrow> filter (\<lambda>ann. image_id ann = img_id i) anns = []"
    using Cons.prems(2) vf by auto
  with s1 have f1: "label_files st1 p = label_files st p" by (rule convert_images_frame)
  show ?case
  proof (cases e1)
    case None
    then have "convert_files c2i out vfs st1 = (st', e)" using Cons.prems(1) s1 vf by simp
    then have "label_files st' p = label_files st1 p" using Cons.prems(2) by (intro Cons.IH) simp_all
    then show ?thesis using f1 by simp
  next
    case (Some a)
    then have "st' = st1" using Cons.prems(1) s1 vf by simp
    then show ?thesis using f1 by simp
  qed
qed

text \<open>
  Claim C3, amended. An image without a matching annotation is skipped: the step of the
  image loop changes nothing and raises nothing, and after the whole conversion a label
  path to which only such images map holds what it held before, so in a fresh output
  directory the label is absent. No empty label file is written.
\<close>

theorem unannotated_image_no_label:
  "(filter (\<lambda>ann. image_id ann = img_id img_info) anns = [] \<longrightarrow>
      convert_image c2i out anns img_info st = (st, None)) \<and>
   ((\<forall>(jf, imgs, anns) \<in> set (valid_files json_files). \<forall>i \<in> set imgs.
        yolo_file_of out i = p \<longrightarrow> filter (\<lambda>ann. image_id ann = img_id i) anns = []) \<and>
      p \<noteq> path_join out ''classes.txt'' \<longrightarrow>
      fst (convert_coco_to_yolo json_files out fs) p = fs p)"
proof (intro conjI impI)
  assume "filter (\<lambda>ann. image_id ann = img_id img_info) anns = []"
  then show "convert_image c2i out anns img_info st = (st, None)"
    by (simp add: convert_image_def)
next
  assume a: "(\<forall>(jf, imgs, anns) \<in> set (valid_files json_files). \<forall>i \<in> set imgs.
        yolo_file_of out i = p \<longrightarrow> filter (\<lambda>ann. image_id ann = img_id i) anns = []) \<and>
      p \<noteq> path_join out ''classes.txt''"
  show "fst (convert_coco_to_yolo json_files out fs) p = fs p"
  proof (cases "json_files = []")
    case True
    then show ?thesis by (simp add: convert_coco_to_yolo_def)
  next
    case False
    define st0 where "st0 = \<lparr> label_files = fs(path_join out ''classes.txt'' \<mapsto> sorted_codes json_files),
               converted_count = 0 \<rparr>"
    obtain st' e where cf: "convert_files (code_to_id (sorted_codes json_files)) out
        (valid_files json_files) st0 = (st', e)"
      by (cases "convert_files (code_to_id (sorted_codes json_files)) out (valid_files json_files) st0")
    have "label_files st' p = label_files st0 p"
      using cf a by (intro convert_files_frame [OF cf]) simp
    moreover have "fst (convert_coco_to_yolo json_files out fs) = label_files st'"
      using False cf unfolding convert_coco_to_yolo_files st0_def by simp
    ultimately show ?thesis using a by (simp add: st0_def)
  qed
qed

lemma valid_unannotated: "valid_files unannotated_files =
  [(''train_annotations/a/b/K-001_0.json'', [example_image], [])]"
  by (simp add: unannotated_files_def)

text \<open>
  Claim C3 as stated fails: converting an annotation file whose only image has no
  annotation into an empty directory returns normally with zero converted images, and
  the label file of the image does not exist afterwards.
\<close>

theorem unannotated_image_label_absent:
  "fst (convert_coco_to_yolo unannotated_files ''out'' Map.empty) ''out/K-001_0.txt'' = None \<and>
   snd (convert_coco_to_yolo unannotated_files ''out'' Map.empty) =
     Inr (Some \<lparr> result_converted_count = 0, total_classes = 1,
                 classes_file = ''out/classes.txt'', class_mapping = [(''K-001'', 0)] \<rparr>)"
proof -
  have ne: "unannotated_files \<noteq> []" by (simp add: unannotated_files_def)
  have codes: "sorted_codes unannotated_files = [''K-001'']"
    by (simp add: sorted_codes_def all_pill_codes_def valid_unannotated extract_pill_code_def
        example_image_def)
  have cf: "convert_files c2i ''out'' (valid_files unannotated_files) st = (st, None)" for c2i st
    by (simp add: valid_unannotated convert_image_def)
  show ?thesis
    using ne by (simp add: convert_coco_to_yolo_def Let_def cf codes path_join_def)
qed

theorem unannotated_image_no_label_witness:
  "filter (\<lambda>ann. image_id ann = img_id example_image) [] = [] \<and>
   convert_image Map.empty ''out'' [] example_image \<lparr> label_files = Map.empty, converted_count = 0 \<rparr>
     = (\<lparr> label_files = Map.empty, converted_count = 0 \<rparr>, None) \<and>
   ''out/K-001_0.txt'' \<noteq> path_join ''out'' ''classes.txt'' \<and>
   fst (convert_coco_to_yolo unannotated_files ''out'' (Map.empty(''out/K-001_0.txt'' \<mapsto> [''kept'']))) ''out/K-001_0.txt''
     = Some [''kept'']"
proof -
  have h: "(\<forall>(jf, imgs, anns) \<in> set (valid_files unannotated_files). \<forall>i \<in> set imgs.
        yolo_file_of ''out'' i = ''out/K-001_0.txt'' \<longrightarrow> filter (\<lambda>ann. image_id ann = img_id i) anns = [])"
    by (simp add: valid_unannotated)
  have n: "''out/K-001_0.txt'' \<noteq> path_join ''out'' ''classes.txt''"
    by (simp add: path_join_def)
  show ?thesis
    using unannotated_image_no_label [of example_image "[]" Map.empty "''out''"
        "\<lparr> label_files = Map.empty, converted_count = 0 \<rparr>" unannotated_files "''out/K-001_0.txt''"
        "Map.empty(''out/K-001_0.txt'' \<mapsto> [''kept''])"] h n
    by simp
qed

section \<open>Class balance score\<close>
















section \<open>Further properties of the sampler and of the vocabulary\<close>

lemma randbelow_less: "0 < n \<Longrightarrow> fst (randbelow n g) < n"
  by (cases g) simp_all

lemma mset_remove_swap_last:
  assumes "j < length pool"
  shows "mset (butlast (pool[j := last pool])) + {#pool ! j#} = mset pool"
proof -
  have ne: "pool \<noteq> []" using assms by auto
  define xs where "xs = pool[j := last pool]"
  have xne: "xs \<noteq> []" using ne by (simp add: xs_def)
  have lastx: "last xs = last pool"
  proof (cases "j = length pool - 1")
    case True
    then show ?thesis using ne unfolding xs_def
      by (simp add: last_conv_nth)
  next
    case False
    then show ?thesis using ne assms unfolding xs_def
      by (simp add: last_conv_nth)
  qed
  have "mset xs = add_mset (last pool) (mset pool - {#pool ! j#})"
    unfolding xs_def using assms by (simp add: mset_update)
  moreover have "mset xs = add_mset (last xs) (mset (butlast xs))"
    using xne by (metis append_butlast_last_id mset.simps(2) mset_append union_mset_add_mset_right add.right_neutral mset.simps(1))
  ultimately have "mset (butlast xs) = mset pool - {#pool ! j#}"
    using lastx by simp
  moreover have "pool ! j \<in># mset pool" using assms by simp
  ultimately show ?thesis unfolding xs_def by simp
qed

lemma sample_loop_subset:
  "k \<le> length pool \<Longrightarrow> mset (fst (sample_loop k pool g)) \<subseteq># mset pool"
proof (induction k arbitrary: pool g)
  case 0
  show ?case by simp
next
  case (Suc k)
  obtain j g1 where j: "randbelow (length pool) g = (j, g1)" by (cases "randbelow (length pool) g")
  have "0 < length pool" using Suc.prems by linarith
  then have "fst (randbelow (length pool) g) < length pool" by (rule randbelow_less)
  then have jl: "j < length pool" using j by simp
  define pool' where "pool' = butlast (pool[j := last pool])"
  obtain r g2 where r: "sample_loop k pool' g1 = (r, g2)" by (cases "sample_loop k pool' g1")
  have "k \<le> length pool'" using Suc.prems by (simp add: pool'_def)
  then have "mset r \<subseteq># mset pool'" using Suc.IH [of pool' g1] r by simp
  then have "add_mset (pool ! j) (mset r) \<subseteq># add_mset (pool ! j) (mset pool')" by simp
  also have "\<dots> = mset pool" using mset_remove_swap_last [OF jl] by (simp add: pool'_def)
  finally show ?case using j r by (simp add: pool'_def)
qed

lemma sample_loop_all:
  "mset (fst (sample_loop (length pool) pool g)) = mset pool"
proof -
  have "mset (fst (sample_loop (length pool) pool g)) \<subseteq># mset pool"
    by (rule sample_loop_subset) simp
  moreover have "size (mset (fst (sample_loop (length pool) pool g))) = size (mset pool)"
    by (simp add: sample_loop_length)
  ultimately show ?thesis
    using mset_subset_size [of "mset (fst (sample_loop (length pool) pool g))" "mset pool"]
    by (metis less_irrefl subset_mset.le_neq_trans)
qed


lemma random_sample_subset:
  assumes "random_sample population k g = Inr (r, g')"
  shows "mset r \<subseteq># mset population"
proof -
  from assms have k: "0 \<le> k" "k \<le> int (length population)"
    and r: "r = fst (sample_loop (nat k) population g)"
    by (auto simp: random_sample_def split: if_splits)
  have "nat k \<le> length population" using k by simp
  then show ?thesis unfolding r by (rule sample_loop_subset)
qed

lemma random_sample_whole:
  "\<exists>r g'. random_sample population (int (length population)) g = Inr (r, g') \<and>
      mset r = mset population"
proof -
  obtain r g' where rg: "sample_loop (length population) population g = (r, g')"
    by (cases "sample_loop (length population) population g")
  have m: "mset r = mset population" using sample_loop_all [of population g] unfolding rg by simp
  have "random_sample population (int (length population)) g = Inr (r, g')"
    unfolding random_sample_def using rg by simp
  then show ?thesis using m by blast
qed

lemma sample_groups_subset:
  assumes "sample_groups spg groups selected g = Inr (sel, g')"
  shows "mset sel \<subseteq># mset selected + mset (concat (map snd groups))"
  using assms
proof (induction groups arbitrary: selected g)
  case Nil
  then show ?case by simp
next
  case (Cons a groups)
  obtain code gp where a: "a = (code, gp)" by (cases a)
  from Cons.prems obtain s g1 where
    rs: "random_sample gp (min spg (int (length gp))) g = Inr (s, g1)"
    and rest: "sample_groups spg groups (selected @ s) g1 = Inr (sel, g')"
    by (auto simp: a Let_def split: sum.splits)
  have s: "mset s \<subseteq># mset gp" using rs by (rule random_sample_subset)
  have "mset sel \<subseteq># mset (selected @ s) + mset (concat (map snd groups))"
    using rest by (rule Cons.IH)
  then have "mset sel \<subseteq># mset selected + mset s + mset (concat (map snd groups))" by simp
  also have "\<dots> \<subseteq># mset selected + mset gp + mset (concat (map snd groups))"
    using s by (intro subset_mset.add_right_mono subset_mset.add_left_mono)
  finally show ?case by (simp add: a add.assoc)
qed

lemma distinct_sub_mset:
  assumes "mset xs \<subseteq># mset ys" "distinct ys"
  shows "distinct xs"
  unfolding distinct_count_atmost_1
proof
  fix a
  have le: "count (mset xs) a \<le> count (mset ys) a"
    using assms(1) by (rule mset_subset_eq_count)
  have ys: "count (mset ys) a = (if a \<in> set ys then 1 else 0)"
    using assms(2) unfolding distinct_count_atmost_1 by blast
  show "count (mset xs) a = (if a \<in> set xs then 1 else 0)"
  proof (cases "a \<in> set xs")
    case True
    then have "0 < count (mset xs) a" by simp
    moreover have "count (mset ys) a \<le> 1" using ys by simp
    ultimately have "count (mset xs) a = 1" using le by linarith
    then show ?thesis using True by simp
  next
    case False
    then show ?thesis by (simp add: count_eq_zero_iff)
  qed
qed

lemma complement_of_selection:
  assumes "mset sel \<subseteq># mset pool" "distinct pool"
  shows "mset sel + mset (filter (\<lambda>p. p \<notin> set sel) pool) = mset pool"
proof -
  have ds: "distinct sel" using assms by (rule distinct_sub_mset)
  have ss: "set sel \<subseteq> set pool" using set_mset_mono [OF assms(1)] by simp
  have se: "set (filter (\<lambda>p. p \<in> set sel) pool) = set sel" using ss by auto
  have df: "distinct (filter (\<lambda>p. p \<in> set sel) pool)" using assms(2) by simp
  have "mset (filter (\<lambda>p. p \<in> set sel) pool) = mset sel"
    using set_eq_iff_mset_eq_distinct [OF df ds] se by blast
  moreover have "mset (filter (\<lambda>p. p \<in> set sel) pool) + mset (filter (\<lambda>p. p \<notin> set sel) pool) = mset pool"
    by (induction pool) auto
  ultimately show ?thesis by simp
qed


lemma py_slice_whole:
  "int (length xs) \<le> k \<Longrightarrow> py_slice xs None (Some k) = xs"
  by (simp add: py_slice_def slice_bound_def)

lemma quality_sample_whole:
  assumes "int (length pairs) \<le> tsize"
  shows "mset (quality_sample getsize pairs tsize) = mset pairs"
proof -
  define ps where "ps = map (\<lambda>pair. (pair, getsize (image_path pair))) pairs"
  define sorted_pairs where "sorted_pairs = sort_key (\<lambda>x. - int (snd x)) ps"
  have "int (length sorted_pairs) \<le> tsize" using assms by (simp add: sorted_pairs_def ps_def)
  then have "py_slice sorted_pairs None (Some tsize) = sorted_pairs" by (rule py_slice_whole)
  then have "quality_sample getsize pairs tsize = map fst sorted_pairs"
    by (simp add: quality_sample_def Let_def sorted_pairs_def ps_def)
  moreover have "mset (map fst sorted_pairs) = mset (map fst ps)"
    by (simp add: sorted_pairs_def)
  moreover have "map fst ps = pairs" by (simp add: ps_def comp_def)
  ultimately show ?thesis by simp
qed

lemma balanced_sample_whole:
  assumes ne: "pairs \<noteq> []" and d: "distinct pairs" and lt: "int (length pairs) < tsize"
  shows "\<exists>sel g'. balanced_sample pairs tsize g = Inr (sel, g') \<and> mset sel = mset pairs"
proof -
  define groups where "groups = group_by (\<lambda>pair. sample_pill_code (image_name pair)) pairs"
  define spg where "spg = max 1 (tsize div int (length groups))"
  have gne: "length groups \<noteq> 0" using ne by (simp add: groups_def group_by_Nil_iff)
  have "0 \<le> spg" by (simp add: spg_def)
  then obtain selected g1 where sg: "sample_groups spg groups [] g = Inr (selected, g1)"
    using sample_groups_Inr by blast
  have "mset selected \<subseteq># mset [] + mset (concat (map snd groups))"
    using sg by (rule sample_groups_subset)
  then have sub: "mset selected \<subseteq># mset pairs" by (simp add: groups_def group_by_mset)
  define remaining where "remaining = filter (\<lambda>p. p \<notin> set selected) pairs"
  define ac where "ac = min (tsize - int (length selected)) (int (length remaining))"
  have part: "mset selected + mset remaining = mset pairs"
    unfolding remaining_def using sub d by (rule complement_of_selection)
  have "length selected + length remaining = length pairs"
    using arg_cong [OF part, of size] by simp
  then have sl: "int (length selected) < tsize" and ac: "ac = int (length remaining)"
    using lt by (simp_all add: ac_def)
  obtain additional g2 where rs: "random_sample remaining ac g1 = Inr (additional, g2)"
    and ma: "mset additional = mset remaining"
    unfolding ac using random_sample_whole by blast
  have "balanced_sample pairs tsize g = Inr (selected @ additional, g2)"
    using gne sg sl rs
    by (simp add: balanced_sample_def Let_def groups_def [symmetric] spg_def [symmetric]
        remaining_def [symmetric] ac_def [symmetric])
  moreover have "mset (selected @ additional) = mset pairs" using part ma by simp
  ultimately show ?thesis by blast
qed

text \<open>
  Under-supply. When the pool has fewer pairs than requested, every strategy returns the
  whole pool in some order: the quality and the random strategy on any pool, the balanced
  strategy on a non-empty pool of distinct pairs.
\<close>

theorem under_supply_returns_pool:
  assumes "int (length pool) < tsize"
    and "strategy = ''balanced'' \<longrightarrow> pool \<noteq> [] \<and> distinct pool"
  shows "\<exists>sel g'. extract_train_pairs getsize pool tsize strategy g = Inr (sel, g') \<and>
           mset sel = mset pool"
proof (cases "strategy = ''balanced''")
  case True
  then show ?thesis using assms balanced_sample_whole [of pool tsize g]
    by (simp add: extract_train_pairs_def)
next
  case nb: False
  show ?thesis
  proof (cases "strategy = ''quality''")
    case True
    have "mset (quality_sample getsize pool tsize) = mset pool"
      using assms(1) by (intro quality_sample_whole) simp
    then show ?thesis using True by (simp add: extract_train_pairs_def)
  next
    case False
    have "min tsize (int (length pool)) = int (length pool)" using assms(1) by simp
    then show ?thesis using nb False random_sample_whole [of pool g]
      by (simp add: extract_train_pairs_def)
  qed
qed

theorem under_supply_returns_pool_witness:
  "int (length example_pool) < 10 \<and> example_pool \<noteq> [] \<and> distinct example_pool \<and>
   (\<exists>sel g'. extract_train_pairs (\<lambda>p. 0) example_pool 10 ''balanced'' [3, 1, 4, 1, 5] = Inr (sel, g') \<and>
      mset sel = mset example_pool)"
proof -
  have l: "int (length example_pool) < 10" by (simp add: example_pool_def)
  have n: "example_pool \<noteq> []" by (simp add: example_pool_def)
  have d: "distinct example_pool" by (simp add: example_pool_def example_pair_def)
  show ?thesis
    using under_supply_returns_pool [of example_pool 10 "''balanced''" "\<lambda>p. 0" "[3, 1, 4, 1, 5]"] l n d
    by simp
qed

text \<open>
  Class vocabulary. The class list written to \<open>classes.txt\<close> is sorted, has no
  repetition and holds exactly the pill codes of the images; the class mapping sends the
  code at position \<open>i\<close> to \<open>i\<close> and knows no other code.
\<close>

theorem vocabulary_sorted_dense:
  "sorted (sorted_codes json_files) \<and> distinct (sorted_codes json_files) \<and>
   set (sorted_codes json_files) = set (all_pill_codes json_files) \<and>
   (\<forall>i < length (sorted_codes json_files).
      code_to_id (sorted_codes json_files) (sorted_codes json_files ! i) = Some i) \<and>
   (code \<notin> set (all_pill_codes json_files) \<longrightarrow>
      code_to_id (sorted_codes json_files) code = None)"
proof -
  define codes where "codes = sorted_codes json_files"
  have s: "sorted codes" by (simp add: codes_def sorted_codes_def)
  have d: "distinct codes" by (simp add: codes_def sorted_codes_def)
  have e: "set codes = set (all_pill_codes json_files)" by (simp add: codes_def sorted_codes_def)
  have n: "code_to_id codes (codes ! i) = Some i" if "i < length codes" for i
  proof -
    have "map_of (zip codes [0 ..< length codes]) (codes ! i) = Some ([0 ..< length codes] ! i)"
      using d that by (intro map_of_zip_nth) simp_all
    then show ?thesis using that by (simp add: code_to_id_def)
  qed
  have m: "code_to_id codes code = None" if "code \<notin> set (all_pill_codes json_files)"
  proof -
    have "code \<notin> fst ` set (zip codes [0 ..< length codes])" using that e by (auto dest: set_zip_leftD)
    then show ?thesis unfolding code_to_id_def by (simp add: map_of_eq_None_iff)
  qed
  show ?thesis using s d e n m unfolding codes_def by blast
qed

theorem vocabulary_sorted_dense_witness:
  "sorted_codes annotated_files = [''K-001''] \<and> (0::nat) < length (sorted_codes annotated_files) \<and>
   code_to_id (sorted_codes annotated_files) (sorted_codes annotated_files ! 0) = Some 0 \<and>
   ''K-002'' \<notin> set (all_pill_codes annotated_files) \<and>
   code_to_id (sorted_codes annotated_files) ''K-002'' = None"
proof -
  have a: "all_pill_codes annotated_files = [''K-001'']"
    by (simp add: all_pill_codes_def valid_annotated extract_pill_code_def example_image_def)
  show ?thesis
    using vocabulary_sorted_dense [of annotated_files "''K-002''"]
    by (simp add: codes_annotated a)
qed

end
